theory Spec2Isabelle
  imports Main "HOL-Library.Multiset"
begin

section \<open>Search index of forum posts (biostar/forum/search.py)\<close>

text \<open>
  The module indexes posts with the Whoosh library and queries the index. The functions of
  the module are embedded one by one, under their own names. The calls they make into the
  library are modelled by their logical contract: a committed index is the list of its
  live documents, a document number is a position in that list, a writer collects document
  numbers to delete and documents to add, and a commit makes both visible at once.
  The order of the list is the model's own; the properties below speak of the documents
  an index holds, not of their order. What the library's query parser and searcher make
  of a query string is not fixed here: the searches are parameters.
  Progress printing (\<^verbatim>\<open>timer_func\<close>) has no effect on the index and is left out.
\<close>

subsection \<open>Stop words and the tokenizer\<close>

text \<open>
  Modelled from the spec: \<^verbatim>\<open>STOP_WORDS\<close> is imported from \<^verbatim>\<open>whoosh.analysis\<close> and is
  not part of the repository's files. The spec calls it "a baseline list of common
  function words"; the words below are the ones of the library's constant.
\<close>

definition STOP_WORDS :: "string list" where
  "STOP_WORDS =
     [''a'', ''an'', ''and'', ''are'', ''as'', ''at'', ''be'', ''by'', ''can'',
      ''for'', ''from'', ''have'', ''if'', ''in'', ''is'', ''it'', ''may'',
      ''not'', ''of'', ''on'', ''or'', ''tbd'', ''that'', ''the'', ''this'',
      ''to'', ''us'', ''we'', ''when'', ''will'', ''with'', ''yet'',
      ''you'', ''your'']"

text \<open>
  \<^verbatim>\<open>STOP = ['there', 'where', 'who'] + [w for w in STOP_WORDS]; STOP = set(STOP)\<close>
\<close>

definition STOP :: "string set" where
  "STOP = set ([''there'', ''where'', ''who''] @ [w. w \<leftarrow> STOP_WORDS])"

text \<open>
  \<^verbatim>\<open>SpaceSeparatedTokenizer()\<close> cuts the text at blanks, tabs, carriage returns and line
  feeds, and yields the non-empty pieces in order.
\<close>

definition is_separator :: "char \<Rightarrow> bool" where
  "is_separator c = (c = CHR '' '' \<or> c = CHR 0x09 \<or> c = CHR 0x0D \<or> c = CHR 0x0A)"

fun split_tokens :: "string \<Rightarrow> string \<Rightarrow> string list" where
  "split_tokens cur [] = (if cur = [] then [] else [cur])"
| "split_tokens cur (c # cs) =
     (if is_separator c
      then (if cur = [] then split_tokens [] cs else cur # split_tokens [] cs)
      else split_tokens (cur @ [c]) cs)"

definition SpaceSeparatedTokenizer :: "string \<Rightarrow> string list" where
  "SpaceSeparatedTokenizer text = split_tokens [] text"

text \<open>
  \<^verbatim>\<open>StopFilter(stoplist=STOP)\<close> drops the tokens of the stop list. The library's filter
  also drops tokens shorter than its default minimum size of two characters, which the
  source does not change.
\<close>

definition StopFilter :: "string set \<Rightarrow> string list \<Rightarrow> string list" where
  "StopFilter stoplist tokens = [t \<leftarrow> tokens. 2 \<le> length t \<and> t \<notin> stoplist]"

text \<open>\<^verbatim>\<open>tokenizer = SpaceSeparatedTokenizer() | StopFilter(stoplist=STOP)\<close> in \<^verbatim>\<open>get_schema\<close>.\<close>

definition tokenizer :: "string \<Rightarrow> string list" where
  "tokenizer text = StopFilter STOP (SpaceSeparatedTokenizer text)"

text \<open>
  The fields \<^verbatim>\<open>title\<close> and \<^verbatim>\<open>content\<close> are \<^verbatim>\<open>NGRAMWORDS(stored=True, tokenizer=tokenizer)\<close>:
  the library turns every token of the tokenizer into its n-grams. That last stage is the
  library's own and is a parameter \<open>grams\<close> here (the terms one token contributes).
\<close>

definition NGRAMWORDS :: "(string \<Rightarrow> string list) \<Rightarrow> string \<Rightarrow> string list" where
  "NGRAMWORDS grams text = concat (map grams (tokenizer text))"

subsection \<open>Posts and documents\<close>

text \<open>
  Of the values of a post's status only \<^verbatim>\<open>Post.DELETED\<close> is named in the module; the
  others are kept apart from it by a number.
\<close>

datatype post_status = DELETED | Status nat

text \<open>
  The attributes of a post that the module reads. \<^verbatim>\<open>root\<close> is the nullable reference to
  the root post (its uid here); the three method calls \<^verbatim>\<open>get_absolute_url()\<close>,
  \<^verbatim>\<open>get_type_display()\<close> and \<^verbatim>\<open>lastedit_date.timestamp()\<close> are read as attributes, and
  \<^verbatim>\<open>author.profile\<close> is flattened.
\<close>

record post =
  uid :: string
  title :: string
  content :: string
  tag_val :: string
  is_toplevel :: bool
  rank :: int
  lastedit_date :: int
  status :: post_status
  root :: "string option"
  get_absolute_url :: string
  get_type_display :: string
  author_profile_name :: string
  author_profile_uid :: string
  author_profile_url :: string

text \<open>The keyword arguments of \<^verbatim>\<open>writer.add_document\<close>: one stored value per schema field.\<close>

record document =
  d_title :: string
  d_url :: string
  d_type :: string
  d_lastedit_date :: int
  d_content :: string
  d_tags :: string
  d_is_toplevel :: bool
  d_rank :: int
  d_uid :: string
  d_author :: string
  d_author_uid :: string
  d_author_url :: string

subsection \<open>The index, its storage and its writer\<close>

type_synonym index = "document list"

text \<open>
  What \<^verbatim>\<open>index_dir\<close> holds under \<^verbatim>\<open>index_name\<close>: the directory does not exist; it exists
  and holds no index of that name; it holds something that cannot be read; or it holds
  a committed index.
\<close>

datatype storage = NoDirectory | Missing | Corrupt | Present index

datatype error =
    EmptyIndexError
  | IndexVersionError
  | FileNotFoundError
  | AttributeError
  | TypeError
  | ValueError
  | EngineError

record writer =
  segments :: index
  deleted :: "nat list"
  added :: "document list"

text \<open>
  \<^verbatim>\<open>open_dir\<close> raises when the directory does not exist, when it holds no index of that
  name and when the index cannot be read.
\<close>

definition open_dir :: "storage \<Rightarrow> error + index" where
  "open_dir st =
     (case st of
        NoDirectory \<Rightarrow> Inl FileNotFoundError
      | Missing \<Rightarrow> Inl EmptyIndexError
      | Corrupt \<Rightarrow> Inl IndexVersionError
      | Present ix \<Rightarrow> Inr ix)"

text \<open>
  \<^verbatim>\<open>exists_in\<close> is False when the directory does not exist; otherwise it opens the
  directory and turns \<^verbatim>\<open>EmptyIndexError\<close>, and no other exception, into False.
\<close>

definition exists_in :: "storage \<Rightarrow> error + bool" where
  "exists_in st =
     (case st of
        NoDirectory \<Rightarrow> Inr False
      | _ \<Rightarrow>
          (case open_dir st of
             Inr ix \<Rightarrow> Inr True
           | Inl EmptyIndexError \<Rightarrow> Inr False
           | Inl e \<Rightarrow> Inl e))"

text \<open>
  \<^verbatim>\<open>create_in\<close> writes a fresh index without documents into the directory, and raises
  when the directory does not exist.
\<close>

definition create_in :: "storage \<Rightarrow> error + index" where
  "create_in st = (case st of NoDirectory \<Rightarrow> Inl FileNotFoundError | _ \<Rightarrow> Inr [])"

text \<open>\<^verbatim>\<open>ix.writer()\<close>: a writer on the committed index with nothing pending.\<close>

definition new_writer :: "index \<Rightarrow> writer" where
  "new_writer ix = \<lparr>segments = ix, deleted = [], added = []\<rparr>"

definition delete_document :: "nat \<Rightarrow> writer \<Rightarrow> writer" where
  "delete_document docnum w = w\<lparr>deleted := deleted w @ [docnum]\<rparr>"

text \<open>
  The fields \<^verbatim>\<open>lastedit_date\<close> and \<^verbatim>\<open>rank\<close> of the schema are \<^verbatim>\<open>NUMERIC(stored=True)\<close>,
  signed numbers of 32 bits: \<^verbatim>\<open>writer.add_document\<close> raises a \<^verbatim>\<open>ValueError\<close> on a value
  outside that range, and adds nothing. The two numbers, floats in the source, are
  integers here.
\<close>

definition numeric_ok :: "int \<Rightarrow> bool" where
  "numeric_ok x = (- (2 ^ 31) \<le> x \<and> x < 2 ^ 31)"

definition add_document :: "document \<Rightarrow> writer \<Rightarrow> error + writer" where
  "add_document d w =
     (if numeric_ok (d_lastedit_date d) \<and> numeric_ok (d_rank d)
      then Inr (w\<lparr>added := added w @ [d]\<rparr>)
      else Inl ValueError)"

text \<open>The documents from number \<open>n\<close> on that are not marked deleted.\<close>

fun surviving :: "nat \<Rightarrow> nat list \<Rightarrow> document list \<Rightarrow> document list" where
  "surviving n del [] = []"
| "surviving n del (d # ds) =
     (if n \<in> set del then surviving (Suc n) del ds else d # surviving (Suc n) del ds)"

text \<open>\<^verbatim>\<open>writer.commit()\<close>: the deletions and the additions become visible together.\<close>

definition commit :: "writer \<Rightarrow> index" where
  "commit w = surviving 0 (deleted w) (segments w) @ added w"

text \<open>
  \<^verbatim>\<open>searcher.search(MultifieldParser(fieldnames=['uid'], schema=ix.schema).parse(uid))\<close>
  on a searcher of the index: the uid is parsed as a query string, and the result is the
  list of the document numbers of the hits, best first. Which documents a uid finds is the
  parser's and the searcher's doing, so the search is a parameter of the functions below.
\<close>

type_synonym uid_search = "index \<Rightarrow> string \<Rightarrow> nat list"

text \<open>
  The numbers of the committed documents whose \<^verbatim>\<open>uid\<close> field equals \<open>u\<close>, in document
  order: what the search finds when the parser reads the uid as one plain word.
\<close>

fun hits_from :: "nat \<Rightarrow> string \<Rightarrow> document list \<Rightarrow> nat list" where
  "hits_from n u [] = []"
| "hits_from n u (d # ds) =
     (if d_uid d = u then n # hits_from (Suc n) u ds else hits_from (Suc n) u ds)"

definition exact_hits :: uid_search where
  "exact_hits ix u = hits_from 0 u ix"

subsection \<open>The functions of the module\<close>

text \<open>
  \<^verbatim>\<open>add_index(post, writer)\<close>. \<open>to_document\<close> is the record of keyword arguments it hands
  to \<^verbatim>\<open>writer.add_document\<close>.
\<close>

definition to_document :: "post \<Rightarrow> document" where
  "to_document p =
     \<lparr>d_title = (if \<not> is_toplevel p then '''' else title p),
      d_url = get_absolute_url p,
      d_type = get_type_display p,
      d_lastedit_date = lastedit_date p,
      d_content = content p,
      d_tags = tag_val p,
      d_is_toplevel = is_toplevel p,
      d_rank = rank p,
      d_uid = uid p,
      d_author = author_profile_name p,
      d_author_uid = author_profile_uid p,
      d_author_url = author_profile_url p\<rparr>"

definition add_index :: "post \<Rightarrow> writer \<Rightarrow> error + writer" where
  "add_index p w = add_document (to_document p) w"

text \<open>\<^verbatim>\<open>open_index\<close>: any exception of \<^verbatim>\<open>open_dir\<close> is logged and the result is \<^verbatim>\<open>None\<close>.\<close>

definition open_index :: "storage \<Rightarrow> index option" where
  "open_index st = (case open_dir st of Inl exc \<Rightarrow> None | Inr ix \<Rightarrow> Some ix)"

text \<open>
  \<^verbatim>\<open>delete_existing(ix, writer, uid)\<close>: the search runs on a searcher of \<open>ix\<close>, and the
  document number of the first hit, if there is a hit, is deleted through the writer.
\<close>

definition delete_existing :: "uid_search \<Rightarrow> index \<Rightarrow> writer \<Rightarrow> string \<Rightarrow> writer" where
  "delete_existing srch ix w u =
     (let indexed = srch ix u
      in (case indexed of
            [] \<Rightarrow> w
          | docnum # rest \<Rightarrow> delete_document docnum w))"

text \<open>\<^verbatim>\<open>posts.exclude(status=Post.DELETED)\<close>\<close>

definition exclude_deleted :: "post list \<Rightarrow> post list" where
  "exclude_deleted posts = [p \<leftarrow> posts. status p \<noteq> DELETED]"

text \<open>
  The loop of \<^verbatim>\<open>index_posts\<close> over the stream of posts. An exception of \<^verbatim>\<open>add_index\<close>
  leaves the loop and the function.
\<close>

fun index_loop ::
  "uid_search \<Rightarrow> bool \<Rightarrow> index \<Rightarrow> writer \<Rightarrow> post list \<Rightarrow> error + writer" where
  "index_loop srch updating ix w [] = Inr w"
| "index_loop srch updating ix w (p # ps) =
     (if root p = None then index_loop srch updating ix w ps
      else
        let w1 = (if updating then delete_existing srch ix w (uid p) else w)
        in (case add_index p w1 of
              Inl e \<Rightarrow> Inl e
            | Inr w2 \<Rightarrow> index_loop srch updating ix w2 ps))"

text \<open>
  The second half of \<^verbatim>\<open>index_posts\<close>, once \<open>ix\<close> is there: the deleted posts are
  excluded, a writer is opened, the loop runs, and the writer commits. When the loop is
  left by an exception nothing is committed.
\<close>

definition write_batch :: "uid_search \<Rightarrow> bool \<Rightarrow> index \<Rightarrow> post list \<Rightarrow> error + storage" where
  "write_batch srch updating ix posts =
     (case index_loop srch updating ix (new_writer ix) (exclude_deleted posts) of
        Inl e \<Rightarrow> Inl e
      | Inr w \<Rightarrow> Inr (Present (commit w)))"

text \<open>
  \<^verbatim>\<open>index_posts(posts, create_new, index_dir, index_name)\<close>. The storage stands for what
  \<^verbatim>\<open>index_dir\<close> holds under \<^verbatim>\<open>index_name\<close>; the result is what it holds after the commit,
  or the exception that left the function. \<^verbatim>\<open>ix.writer()\<close> on \<^verbatim>\<open>None\<close> is an
  \<^verbatim>\<open>AttributeError\<close>.
\<close>

definition index_posts ::
  "uid_search \<Rightarrow> post list \<Rightarrow> bool \<Rightarrow> storage \<Rightarrow> error + storage" where
  "index_posts srch posts create_new st =
     (case exists_in st of
        Inl e \<Rightarrow> Inl e
      | Inr index_exists \<Rightarrow>
          if index_exists \<and> \<not> create_new
          then (case open_index st of
                  None \<Rightarrow> Inl AttributeError
                | Some ix \<Rightarrow> write_batch srch True ix posts)
          else (case create_in st of
                  Inl e \<Rightarrow> Inl e
                | Inr ix \<Rightarrow> write_batch srch False ix posts))"

subsection \<open>Queries\<close>

text \<open>
  The result set of a search: the document numbers of the hits in rank order, and the
  fragmenter whose two attributes decide how excerpts are cut.
\<close>

record fragmenter =
  maxchars :: nat
  surround :: nat

record results =
  hits :: "nat list"
  res_fragmenter :: fragmenter

text \<open>The values a keyword argument of \<^verbatim>\<open>query\<close> may carry in \<^verbatim>\<open>**kwargs\<close>.\<close>

datatype kwarg = KNone | KBool bool | KInt int | KStr string

text \<open>
  The two library calls of \<^verbatim>\<open>query\<close> are parameters: \<open>parse\<close> is
  \<^verbatim>\<open>MultifieldParser(fieldnames=fields, schema=ix.schema).parse(q)\<close>, and \<open>search\<close> is
  \<^verbatim>\<open>searcher.search(parser, limit=..., **kwargs)\<close> on a searcher of the index, given the
  parsed query, the limit and the other keyword arguments. Either may raise.
\<close>

record 'q engine =
  parse :: "index \<Rightarrow> string list \<Rightarrow> string \<Rightarrow> error + 'q"
  search :: "index \<Rightarrow> 'q \<Rightarrow> nat \<Rightarrow> (string \<times> kwarg) list \<Rightarrow> error + results"

text \<open>
  \<^verbatim>\<open>query(q, fields, index_dir, index_name, **kwargs)\<close>. \<open>SIMILAR_FEED_COUNT\<close> is the value
  of \<^verbatim>\<open>settings.SIMILAR_FEED_COUNT\<close>. The steps in the source's order: \<^verbatim>\<open>open_index\<close>;
  \<^verbatim>\<open>ix.searcher()\<close>, an \<^verbatim>\<open>AttributeError\<close> when \<open>ix\<close> is \<^verbatim>\<open>None\<close>; the parse; the call of
  \<^verbatim>\<open>search\<close> with \<^verbatim>\<open>limit=settings.SIMILAR_FEED_COUNT\<close> and \<^verbatim>\<open>**kwargs\<close>, which Python refuses
  with a \<^verbatim>\<open>TypeError\<close> when \<open>kwargs\<close> has a key \<^verbatim>\<open>limit\<close> too; the two assignments to the
  fragmenter of the results.
\<close>

definition query ::
  "'q engine \<Rightarrow> nat \<Rightarrow> string \<Rightarrow> string list \<Rightarrow> storage \<Rightarrow> (string \<times> kwarg) list
     \<Rightarrow> error + results" where
  "query eng SIMILAR_FEED_COUNT q fieldnames st kwargs =
     (case open_index st of
        None \<Rightarrow> Inl AttributeError
      | Some ix \<Rightarrow>
          (case parse eng ix fieldnames q of
             Inl e \<Rightarrow> Inl e
           | Inr parser \<Rightarrow>
               if ''limit'' \<in> set (map fst kwargs) then Inl TypeError
               else
                 (case search eng ix parser SIMILAR_FEED_COUNT kwargs of
                    Inl e \<Rightarrow> Inl e
                  | Inr res \<Rightarrow>
                      Inr (res\<lparr>res_fragmenter :=
                             (res_fragmenter res)\<lparr>maxchars := 300, surround := 50\<rparr>\<rparr>))))"



subsection \<open>Reading the index\<close>

text \<open>The committed documents whose \<^verbatim>\<open>uid\<close> field is \<open>u\<close>.\<close>

definition docs_with_uid :: "string \<Rightarrow> index \<Rightarrow> document list" where
  "docs_with_uid u ix = [d \<leftarrow> ix. d_uid d = u]"

text \<open>The same, of a storage: nothing unless an index is present.\<close>

definition stored_with_uid :: "string \<Rightarrow> storage \<Rightarrow> document list" where
  "stored_with_uid u st = (case st of Present ix \<Rightarrow> docs_with_uid u ix | _ \<Rightarrow> [])"

text \<open>The posts of a batch that reach \<^verbatim>\<open>add_index\<close>: not deleted, and with a root.\<close>

definition indexed_posts :: "post list \<Rightarrow> post list" where
  "indexed_posts posts = [p \<leftarrow> exclude_deleted posts. root p \<noteq> None]"

text \<open>A post whose two numbers fit the numeric fields of the schema.\<close>

definition storable :: "post \<Rightarrow> bool" where
  "storable p = (numeric_ok (lastedit_date p) \<and> numeric_ok (rank p))"

text \<open>
  The terms a document is indexed under in its \<^verbatim>\<open>title\<close> field, and whether a query term
  on that field matches the document.
\<close>

definition title_terms :: "(string \<Rightarrow> string list) \<Rightarrow> document \<Rightarrow> string list" where
  "title_terms grams d = NGRAMWORDS grams (d_title d)"

definition title_matches :: "(string \<Rightarrow> string list) \<Rightarrow> string \<Rightarrow> document \<Rightarrow> bool" where
  "title_matches grams t d = (t \<in> set (title_terms grams d))"

text \<open>
  A sequence of indexing runs, each with its batch and its \<^verbatim>\<open>create_new\<close> flag, each run
  on what the run before left in the storage; the first exception ends the sequence.
\<close>

fun index_runs :: "uid_search \<Rightarrow> (post list \<times> bool) list \<Rightarrow> storage \<Rightarrow> error + storage" where
  "index_runs srch [] st = Inr st"
| "index_runs srch ((posts, create_new) # runs) st =
     (case index_posts srch posts create_new st of
        Inl e \<Rightarrow> Inl e
      | Inr st' \<Rightarrow> index_runs srch runs st')"

subsection \<open>Sample data\<close>

text \<open>A question, a comment on it, and variants of the question used in examples.\<close>

definition question :: post where
  "question =
     \<lparr>uid = ''p1'', title = ''Aligning reads'', content = ''alpha'',
      tag_val = ''alignment'', is_toplevel = True, rank = 10, lastedit_date = 1500000000,
      status = Status 1, root = Some ''p1'', get_absolute_url = ''/p/p1/'',
      get_type_display = ''Question'', author_profile_name = ''Ann'',
      author_profile_uid = ''u1'', author_profile_url = ''/u/u1/''\<rparr>"

definition comment :: post where
  "comment =
     question\<lparr>uid := ''p2'', title := ''Aligning reads'', content := ''thanks indeed'',
       is_toplevel := False, get_absolute_url := ''/p/p1/#p2'',
       get_type_display := ''Comment''\<rparr>"

definition edited_question :: post where
  "edited_question = question\<lparr>content := ''beta''\<rparr>"

definition deleted_question :: post where
  "deleted_question = question\<lparr>status := DELETED\<rparr>"

text \<open>
  A stand-in for the library's search by uid, right for the uids of the sample posts,
  which are plain words: the empty uid parses to the null query and finds nothing, any
  other uid finds the documents of that uid in document order.
\<close>

definition sample_search :: uid_search where
  "sample_search ix u = (if u = [] then [] else exact_hits ix u)"

text \<open>
  A stand-in for the library's search: every query parses, and the hits are the first
  \<open>limit\<close> document numbers, with the library's default fragmenter.
\<close>

definition sample_engine :: "string engine" where
  "sample_engine =
     \<lparr>parse = (\<lambda>ix fieldnames q. Inr q),
      search = (\<lambda>ix parser limit kwargs.
        Inr \<lparr>hits = take limit [0..<length ix],
             res_fragmenter = \<lparr>maxchars = 200, surround = 20\<rparr>\<rparr>)\<rparr>"



section \<open>Properties\<close>

subsection \<open>The writer and the loop\<close>

lemma delete_existing_eq:
  "delete_existing srch ix w u = w\<lparr>deleted := deleted w @ take 1 (srch ix u)\<rparr>"
  by (cases "srch ix u") (simp_all add: delete_existing_def delete_document_def)

lemma add_index_eq:
  "add_index p w =
     (if storable p then Inr (w\<lparr>added := added w @ [to_document p]\<rparr>) else Inl ValueError)"
  by (simp add: add_index_def add_document_def storable_def to_document_def)

lemma index_loop_storable:
  "index_loop srch upd ix w ps = Inr w' \<Longrightarrow> p \<in> set ps \<Longrightarrow> root p \<noteq> None \<Longrightarrow> storable p"
proof (induction ps arbitrary: w)
  case Nil
  then show ?case by simp
next
  case (Cons q ps)
  show ?case
  proof (cases "root q = None")
    case True
    with Cons.prems have "index_loop srch upd ix w ps = Inr w'" and "p \<in> set ps" by auto
    then show ?thesis using Cons.prems(3) by (rule Cons.IH)
  next
    case False
    let ?w1 = "if upd then delete_existing srch ix w (uid q) else w"
    from Cons.prems(1) False obtain w2 where add: "add_index q ?w1 = Inr w2"
      and rest: "index_loop srch upd ix w2 ps = Inr w'"
      by (auto simp: Let_def split: sum.splits)
    from add have q: "storable q" by (simp add: add_index_eq split: if_splits)
    show ?thesis
    proof (cases "p = q")
      case True
      with q show ?thesis by simp
    next
      case False
      with Cons.prems(2) have "p \<in> set ps" by simp
      with rest show ?thesis using Cons.prems(3) by (rule Cons.IH)
    qed
  qed
qed

lemma index_loop_update:
  "(\<forall>p\<in>set ps. root p \<noteq> None \<longrightarrow> storable p) \<Longrightarrow>
   index_loop srch True ix w ps =
     Inr (w\<lparr>deleted := deleted w
                @ concat (map (\<lambda>p. take 1 (srch ix (uid p))) [p \<leftarrow> ps. root p \<noteq> None]),
            added := added w @ map to_document [p \<leftarrow> ps. root p \<noteq> None]\<rparr>)"
proof (induction ps arbitrary: w)
  case Nil
  then show ?case by simp
next
  case (Cons q ps)
  from Cons.prems have later: "\<forall>p\<in>set ps. root p \<noteq> None \<longrightarrow> storable p" by simp
  show ?case
  proof (cases "root q = None")
    case True
    with Cons.IH[OF later, of w] show ?thesis by simp
  next
    case False
    with Cons.prems have q: "storable q" by simp
    let ?w2 = "w\<lparr>deleted := deleted w @ take 1 (srch ix (uid q)),
                 added := added w @ [to_document q]\<rparr>"
    have "index_loop srch True ix w (q # ps) = index_loop srch True ix ?w2 ps"
      using False q by (auto simp: add_index_eq delete_existing_eq)
    with Cons.IH[OF later, of ?w2] False show ?thesis by simp
  qed
qed

lemma index_loop_create:
  "(\<forall>p\<in>set ps. root p \<noteq> None \<longrightarrow> storable p) \<Longrightarrow>
   index_loop srch False ix w ps =
     Inr (w\<lparr>added := added w @ map to_document [p \<leftarrow> ps. root p \<noteq> None]\<rparr>)"
proof (induction ps arbitrary: w)
  case Nil
  then show ?case by simp
next
  case (Cons q ps)
  from Cons.prems have later: "\<forall>p\<in>set ps. root p \<noteq> None \<longrightarrow> storable p" by simp
  show ?case
  proof (cases "root q = None")
    case True
    with Cons.IH[OF later, of w] show ?thesis by simp
  next
    case False
    with Cons.prems have q: "storable q" by simp
    let ?w2 = "w\<lparr>added := added w @ [to_document q]\<rparr>"
    have "index_loop srch False ix w (q # ps) = index_loop srch False ix ?w2 ps"
      using False q by (auto simp: add_index_eq)
    with Cons.IH[OF later, of ?w2] False show ?thesis by simp
  qed
qed

lemma indexed_posts_alt:
  "indexed_posts ps = [p \<leftarrow> ps. status p \<noteq> DELETED \<and> root p \<noteq> None]"
  by (simp add: indexed_posts_def exclude_deleted_def)

lemma write_batch_storable:
  assumes "write_batch srch upd ix ps = Inr st'"
  shows "\<forall>p\<in>set (indexed_posts ps). storable p"
proof
  fix p assume "p \<in> set (indexed_posts ps)"
  then have p: "p \<in> set (exclude_deleted ps)" "root p \<noteq> None"
    by (simp_all add: indexed_posts_def)
  from assms obtain w' where
    "index_loop srch upd ix (new_writer ix) (exclude_deleted ps) = Inr w'"
    by (auto simp: write_batch_def split: sum.splits)
  then show "storable p" using p by (rule index_loop_storable)
qed

lemma write_batch_update:
  assumes "\<forall>p\<in>set (indexed_posts ps). storable p"
  shows "write_batch srch True ix ps =
     Inr (Present
       (surviving 0 (concat (map (\<lambda>p. take 1 (srch ix (uid p))) (indexed_posts ps))) ix
        @ map to_document (indexed_posts ps)))"
proof -
  from assms have "\<forall>p\<in>set (exclude_deleted ps). root p \<noteq> None \<longrightarrow> storable p"
    by (simp add: indexed_posts_def)
  then show ?thesis
    by (simp add: write_batch_def index_loop_update commit_def new_writer_def indexed_posts_def)
qed

lemma write_batch_create:
  assumes "\<forall>p\<in>set (indexed_posts ps). storable p"
  shows "write_batch srch False [] ps = Inr (Present (map to_document (indexed_posts ps)))"
proof -
  from assms have "\<forall>p\<in>set (exclude_deleted ps). root p \<noteq> None \<longrightarrow> storable p"
    by (simp add: indexed_posts_def)
  then show ?thesis
    by (simp add: write_batch_def index_loop_create commit_def new_writer_def indexed_posts_def)
qed

lemma index_posts_cases:
  "index_posts srch ps False (Present ix) = write_batch srch True ix ps"
  "index_posts srch ps True (Present ix) = write_batch srch False [] ps"
  "index_posts srch ps cn Missing = write_batch srch False [] ps"
  "index_posts srch ps cn Corrupt = Inl IndexVersionError"
  "index_posts srch ps cn NoDirectory = Inl FileNotFoundError"
  by (simp_all add: index_posts_def exists_in_def open_dir_def open_index_def create_in_def)

lemma hits_from_ge: "h \<in> set (hits_from n u ds) \<Longrightarrow> n \<le> h"
  by (induction ds arbitrary: n) (auto split: if_splits dest: Suc_leD)

lemma in_hits_from:
  "h \<in> set (hits_from n u ds) \<longleftrightarrow> n \<le> h \<and> h - n < length ds \<and> d_uid (ds ! (h - n)) = u"
proof (induction ds arbitrary: n)
  case Nil
  then show ?case by simp
next
  case (Cons d ds)
  show ?case
  proof (cases "h = n")
    case True
    then show ?thesis using hits_from_ge[of h "Suc n" u ds] by auto
  next
    case False
    have "h \<in> set (hits_from n u (d # ds)) \<longleftrightarrow> h \<in> set (hits_from (Suc n) u ds)"
      using False by simp
    also have "\<dots> \<longleftrightarrow> Suc n \<le> h \<and> h - Suc n < length ds \<and> d_uid (ds ! (h - Suc n)) = u"
      by (rule Cons.IH)
    also have "\<dots> \<longleftrightarrow> n \<le> h \<and> h - n < length (d # ds) \<and> d_uid ((d # ds) ! (h - n)) = u"
    proof (cases "n < h")
      case True
      then obtain k where k: "h - n = Suc k" by (cases "h - n") auto
      then have "h - Suc n = k" by simp
      with k True show ?thesis by auto
    next
      case False
      with \<open>h \<noteq> n\<close> show ?thesis by auto
    qed
    finally show ?thesis .
  qed
qed

lemma length_hits_from: "length (hits_from n u ds) = length (docs_with_uid u ds)"
  by (induction ds arbitrary: n) (simp_all add: docs_with_uid_def)

lemma surviving_filter:
  "(\<forall>i<length ds. (n + i \<in> set del) = P (ds ! i)) \<Longrightarrow>
     surviving n del ds = [d \<leftarrow> ds. \<not> P d]"
proof (induction ds arbitrary: n)
  case Nil
  then show ?case by simp
next
  case (Cons d ds)
  have head: "(n \<in> set del) = P d" using Cons.prems by force
  have "\<forall>i<length ds. (Suc n + i \<in> set del) = P (ds ! i)"
  proof (intro allI impI)
    fix i assume "i < length ds"
    then have "(n + Suc i \<in> set del) = P ((d # ds) ! Suc i)"
      using Cons.prems by (metis length_Cons Suc_less_eq)
    then show "(Suc n + i \<in> set del) = P (ds ! i)" by simp
  qed
  then have "surviving (Suc n) del ds = [d \<leftarrow> ds. \<not> P d]" by (rule Cons.IH)
  with head show ?case by simp
qed

lemma surviving_none: "(\<forall>h\<in>set del. h < n) \<Longrightarrow> surviving n del ds = ds"
proof (induction ds arbitrary: n)
  case Nil
  then show ?case by simp
next
  case (Cons d ds)
  from Cons.prems have "n \<notin> set del" by auto
  moreover from Cons.prems have "\<forall>h\<in>set del. h < Suc n" by auto
  then have "surviving (Suc n) del ds = ds" by (rule Cons.IH)
  ultimately show ?case by simp
qed

lemma surviving_single:
  "n \<le> h \<Longrightarrow> h < n + length ds \<Longrightarrow>
     surviving n [h] ds = take (h - n) ds @ drop (Suc (h - n)) ds"
proof (induction ds arbitrary: n)
  case Nil
  then show ?case by simp
next
  case (Cons d ds)
  show ?case
  proof (cases "h = n")
    case True
    have "surviving (Suc n) [n] ds = ds" by (rule surviving_none) simp
    with True show ?thesis by simp
  next
    case False
    with Cons.prems have le: "Suc n \<le> h" and lt: "h < Suc n + length ds" by auto
    from le obtain k where k: "h - n = Suc k" by (cases "h - n") auto
    then have k': "h - Suc n = k" by simp
    from Cons.IH[OF le lt] k' have "surviving (Suc n) [h] ds = take k ds @ drop (Suc k) ds"
      by simp
    with False k show ?thesis by simp
  qed
qed

lemma surviving_subset: "set (surviving n del ds) \<subseteq> set ds"
  by (induction ds arbitrary: n) auto

lemma distinct_uid_le1:
  "distinct (map d_uid ds) \<Longrightarrow> length (docs_with_uid u ds) \<le> 1"
proof (induction ds)
  case Nil
  then show ?case by (simp add: docs_with_uid_def)
next
  case (Cons d ds)
  show ?case
  proof (cases "d_uid d = u")
    case True
    with Cons.prems have "u \<notin> d_uid ` set ds" by auto
    then have "docs_with_uid u ds = []"
      by (auto simp: docs_with_uid_def filter_empty_conv)
    with True show ?thesis by (simp add: docs_with_uid_def)
  next
    case False
    with Cons show ?thesis by (simp add: docs_with_uid_def)
  qed
qed

lemma surviving_update:
  assumes one: "\<forall>p\<in>set qs. length (docs_with_uid (uid p) ix) \<le> 1"
    and exact: "\<forall>p\<in>set qs. srch ix (uid p) = exact_hits ix (uid p)"
  shows "surviving 0 (concat (map (\<lambda>p. take 1 (srch ix (uid p))) qs)) ix =
     [d \<leftarrow> ix. d_uid d \<notin> uid ` set qs]"
proof -
  let ?del = "concat (map (\<lambda>p. take 1 (srch ix (uid p))) qs)"
  have "\<forall>i<length ix. (0 + i \<in> set ?del) = (d_uid (ix ! i) \<in> uid ` set qs)"
  proof (intro allI impI)
    fix i assume i: "i < length ix"
    have "(i \<in> set ?del) = (\<exists>p\<in>set qs. i \<in> set (take 1 (srch ix (uid p))))"
      by auto
    also have "\<dots> = (\<exists>p\<in>set qs. i \<in> set (exact_hits ix (uid p)))"
    proof -
      have "take 1 (srch ix (uid p)) = exact_hits ix (uid p)" if "p \<in> set qs" for p
      proof -
        from one that have "length (exact_hits ix (uid p)) \<le> 1"
          by (simp add: exact_hits_def length_hits_from)
        with exact that show ?thesis by simp
      qed
      then show ?thesis by auto
    qed
    also have "\<dots> = (\<exists>p\<in>set qs. d_uid (ix ! i) = uid p)"
      using i by (simp add: exact_hits_def in_hits_from)
    also have "\<dots> = (d_uid (ix ! i) \<in> uid ` set qs)" by auto
    finally show "(0 + i \<in> set ?del) = (d_uid (ix ! i) \<in> uid ` set qs)" by simp
  qed
  then have "surviving 0 ?del ix = [d \<leftarrow> ix. \<not> d_uid d \<in> uid ` set qs]"
    by (rule surviving_filter)
  then show ?thesis by simp
qed

lemma docs_with_uid_new:
  "docs_with_uid u (map to_document qs) = map to_document [q \<leftarrow> qs. uid q = u]"
  by (induction qs) (simp_all add: docs_with_uid_def to_document_def)

lemma filter_key_distinct:
  "distinct (map f xs) \<Longrightarrow> x \<in> set xs \<Longrightarrow> [y \<leftarrow> xs. f y = f x] = [x]"
proof (induction xs)
  case Nil
  then show ?case by simp
next
  case (Cons a xs)
  show ?case
  proof (cases "x = a")
    case True
    from Cons.prems have "f a \<notin> f ` set xs" by simp
    then have "\<forall>y\<in>set xs. f y \<noteq> f a" by (metis imageI)
    then have "[y \<leftarrow> xs. f y = f a] = []" by (simp add: filter_empty_conv)
    with True show ?thesis by simp
  next
    case False
    with Cons.prems have x: "x \<in> set xs" and d: "distinct (map f xs)" by auto
    from Cons.prems x have "f a \<noteq> f x" by auto
    with Cons.IH[OF d x] show ?thesis by simp
  qed
qed

lemma index_posts_adds_no_deleted:
  assumes gone: "\<forall>q\<in>set ps. uid q = u \<longrightarrow> status q = DELETED"
    and run: "index_posts srch ps cn st = Inr st'"
  shows "set (stored_with_uid u st') \<subseteq> set (stored_with_uid u st)"
proof -
  from gone have "[q \<leftarrow> indexed_posts ps. uid q = u] = []"
    by (auto simp: indexed_posts_alt filter_empty_conv)
  then have new: "docs_with_uid u (map to_document (indexed_posts ps)) = []"
    by (simp add: docs_with_uid_new)
  have fresh: "stored_with_uid u st' = []" if wb: "write_batch srch False [] ps = Inr st'"
  proof -
    from wb have "\<forall>p\<in>set (indexed_posts ps). storable p" by (rule write_batch_storable)
    then have "write_batch srch False [] ps = Inr (Present (map to_document (indexed_posts ps)))"
      by (rule write_batch_create)
    with wb new show ?thesis by (auto simp: stored_with_uid_def)
  qed
  show ?thesis
  proof (cases st)
    case NoDirectory
    with run show ?thesis by (simp add: index_posts_cases)
  next
    case Missing
    with run fresh show ?thesis by (simp add: index_posts_cases)
  next
    case Corrupt
    with run show ?thesis by (simp add: index_posts_cases)
  next
    case (Present ix)
    show ?thesis
    proof (cases cn)
      case True
      with Present run fresh show ?thesis by (simp add: index_posts_cases)
    next
      case False
      let ?del = "concat (map (\<lambda>p. take 1 (srch ix (uid p))) (indexed_posts ps))"
      from run Present False have wb: "write_batch srch True ix ps = Inr st'"
        by (simp add: index_posts_cases)
      then have "\<forall>p\<in>set (indexed_posts ps). storable p" by (rule write_batch_storable)
      then have "write_batch srch True ix ps
          = Inr (Present (surviving 0 ?del ix @ map to_document (indexed_posts ps)))"
        by (rule write_batch_update)
      with wb have st': "st' = Present (surviving 0 ?del ix @ map to_document (indexed_posts ps))"
        by simp
      have "docs_with_uid u (surviving 0 ?del ix @ map to_document (indexed_posts ps))
          = docs_with_uid u (surviving 0 ?del ix)"
        using new by (simp add: docs_with_uid_def)
      moreover have "set (docs_with_uid u (surviving 0 ?del ix)) \<subseteq> set (docs_with_uid u ix)"
        using surviving_subset[of 0 ?del ix] by (auto simp: docs_with_uid_def)
      ultimately show ?thesis using st' Present by (simp add: stored_with_uid_def)
    qed
  qed
qed

lemma tokenizer_empty: "tokenizer '''' = []"
  by (simp add: tokenizer_def StopFilter_def SpaceSeparatedTokenizer_def)

subsection \<open>Stop words\<close>

text \<open>
  Claim C8. The stop list of the tokenizer is the baseline list \<^verbatim>\<open>STOP_WORDS\<close> together with
  the three words "there", "where" and "who"; none of the three is in the baseline list, so
  they are exactly what the module adds; and no token that leaves the tokenizer is in the
  stop list.
\<close>

theorem STOP_baseline_plus_three:
  "STOP = set STOP_WORDS \<union> {''there'', ''where'', ''who''}
   \<and> ''there'' \<notin> set STOP_WORDS \<and> ''where'' \<notin> set STOP_WORDS \<and> ''who'' \<notin> set STOP_WORDS
   \<and> STOP - set STOP_WORDS = {''there'', ''where'', ''who''}
   \<and> set (tokenizer text) \<inter> STOP = {}"
proof -
  have new: "''there'' \<notin> set STOP_WORDS" "''where'' \<notin> set STOP_WORDS" "''who'' \<notin> set STOP_WORDS"
    by (simp_all add: STOP_WORDS_def)
  have eq: "STOP = set STOP_WORDS \<union> {''there'', ''where'', ''who''}"
    by (auto simp: STOP_def)
  have diff: "STOP - set STOP_WORDS = {''there'', ''where'', ''who''}"
    using new unfolding eq by blast
  have tok: "set (tokenizer text) \<inter> STOP = {}"
    by (auto simp: tokenizer_def StopFilter_def)
  from eq new diff tok show ?thesis by blast
qed

subsection \<open>Title scoping\<close>

text \<open>
  Claim C6. The document that \<^verbatim>\<open>add_index\<close> hands to the writer for a post has the post's
  title when the post is top-level and the empty string otherwise; it is that document
  that is added, unless the writer refuses one of its two numbers. A post that is not
  top-level is therefore indexed under no term at all in the \<^verbatim>\<open>title\<close> field, and no query
  term on that field matches it.
\<close>

theorem title_scoping:
  "d_title (to_document p) = (if is_toplevel p then title p else '''')
   \<and> add_index p w =
       (if numeric_ok (lastedit_date p) \<and> numeric_ok (rank p)
        then Inr (w\<lparr>added := added w @ [to_document p]\<rparr>) else Inl ValueError)
   \<and> (\<not> is_toplevel p \<longrightarrow>
        title_terms grams (to_document p) = [] \<and> \<not> title_matches grams t (to_document p))"
  by (simp add: to_document_def add_index_def add_document_def title_matches_def
      title_terms_def NGRAMWORDS_def tokenizer_empty)

text \<open>The comment carries a title of its own, and still no title term matches its document.\<close>

theorem title_scoping_witness:
  "\<not> is_toplevel comment \<and> title comment = ''Aligning reads''
   \<and> d_title (to_document comment) = ''''
   \<and> \<not> title_matches (\<lambda>w. [w]) ''Aligning'' (to_document comment)
   \<and> title_matches (\<lambda>w. [w]) ''Aligning'' (to_document question)"
proof -
  have c: "\<not> is_toplevel comment" "title comment = ''Aligning reads''"
    by (simp_all add: comment_def question_def)
  have q: "title_matches (\<lambda>w. [w]) ''Aligning'' (to_document question)"
    by (simp add: title_matches_def title_terms_def NGRAMWORDS_def tokenizer_def
        StopFilter_def SpaceSeparatedTokenizer_def is_separator_def to_document_def
        question_def STOP_def STOP_WORDS_def)
  from title_scoping[of comment undefined "\<lambda>w. [w]" "''Aligning''"] c q show ?thesis by simp
qed

subsection \<open>Queries\<close>

text \<open>
  Claim C4. On a storage that cannot be opened, missing or corrupt, \<^verbatim>\<open>open_index\<close> returns
  \<^verbatim>\<open>None\<close>, and \<^verbatim>\<open>query\<close> then calls \<^verbatim>\<open>ix.searcher()\<close> on it: the caller gets an
  \<^verbatim>\<open>AttributeError\<close>, not a result that says the index is unavailable.
\<close>

theorem query_unopened_index_raises:
  "open_index Missing = None \<and> open_index Corrupt = None
   \<and> query eng n q fieldnames Missing kwargs = Inl AttributeError
   \<and> query eng n q fieldnames Corrupt kwargs = Inl AttributeError"
  by (simp add: query_def open_index_def open_dir_def)

text \<open>
  Claim C3, as stated, fails: \<^verbatim>\<open>query\<close> has no limit parameter. A \<^verbatim>\<open>limit\<close> given by the
  caller lands in \<^verbatim>\<open>**kwargs\<close> beside the \<^verbatim>\<open>limit\<close> the function passes itself, and the call
  of \<^verbatim>\<open>search\<close> is refused.
\<close>

theorem query_limit_keyword_refused:
  "query sample_engine 30 ''alpha'' [''content''] (Present [to_document question])
     [(''limit'', KInt 5)] = Inl TypeError"
  by (simp add: query_def open_index_def open_dir_def sample_engine_def)

text \<open>
  Claim C3, amended. \<^verbatim>\<open>query\<close> has no limit parameter of its own. When the index opens
  and the query parses, a call that passes \<^verbatim>\<open>limit\<close> among its keyword arguments fails with
  a \<^verbatim>\<open>TypeError\<close>. A query that returns was given no \<^verbatim>\<open>limit\<close> by its caller, and its
  hits are those of the library's search called with \<^verbatim>\<open>settings.SIMILAR_FEED_COUNT\<close> as
  the limit; with a search that returns no more hits than its limit, the result set has
  at most \<^verbatim>\<open>SIMILAR_FEED_COUNT\<close> hits.
\<close>

theorem query_limit_configured:
  "(open_index st = Some ix0 \<and> parse eng ix0 fieldnames q = Inr pq0
      \<and> ''limit'' \<in> set (map fst kwargs)
      \<longrightarrow> query eng n q fieldnames st kwargs = Inl TypeError)
   \<and> (query eng n q fieldnames st kwargs = Inr res \<longrightarrow>
        ''limit'' \<notin> set (map fst kwargs)
        \<and> (\<exists>ix pq r. open_index st = Some ix \<and> parse eng ix fieldnames q = Inr pq
              \<and> search eng ix pq n kwargs = Inr r \<and> hits res = hits r)
        \<and> ((\<forall>ix pq l kw r. search eng ix pq l kw = Inr r \<longrightarrow> length (hits r) \<le> l)
              \<longrightarrow> length (hits res) \<le> n))"
proof (intro conjI impI)
  assume "open_index st = Some ix0 \<and> parse eng ix0 fieldnames q = Inr pq0
      \<and> ''limit'' \<in> set (map fst kwargs)"
  then show "query eng n q fieldnames st kwargs = Inl TypeError"
    by (simp add: query_def)
next
  assume ok: "query eng n q fieldnames st kwargs = Inr res"
  from ok obtain ix where ix: "open_index st = Some ix"
    by (auto simp: query_def split: option.splits)
  from ok ix obtain pq where pq: "parse eng ix fieldnames q = Inr pq"
    by (auto simp: query_def split: sum.splits)
  from ok ix pq show nolimit: "''limit'' \<notin> set (map fst kwargs)"
    by (auto simp: query_def split: if_splits)
  from ok ix pq nolimit obtain r where r: "search eng ix pq n kwargs = Inr r"
    by (auto simp: query_def split: sum.splits if_splits)
  from ok ix pq nolimit r have h: "hits res = hits r"
    by (auto simp: query_def)
  from ix pq r h
  show "\<exists>ix pq r. open_index st = Some ix \<and> parse eng ix fieldnames q = Inr pq
          \<and> search eng ix pq n kwargs = Inr r \<and> hits res = hits r" by blast
  assume "\<forall>ix pq l kw r. search eng ix pq l kw = Inr r \<longrightarrow> length (hits r) \<le> l"
  with r have "length (hits r) \<le> n" by blast
  with h show "length (hits res) \<le> n" by simp
qed

text \<open>
  Three documents and the limit 2: two hits come back; and the same query with a \<^verbatim>\<open>limit\<close>
  of the caller's is a \<^verbatim>\<open>TypeError\<close>.
\<close>

theorem query_limit_configured_witness:
  "query sample_engine 2 ''alpha'' [''content'']
      (Present [to_document question, to_document comment, to_document edited_question]) []
     = Inr \<lparr>hits = [0, 1], res_fragmenter = \<lparr>maxchars = 300, surround = 50\<rparr>\<rparr>
   \<and> length (hits \<lparr>hits = [0, 1], res_fragmenter = \<lparr>maxchars = 300, surround = 50\<rparr>\<rparr>) \<le> (2::nat)
   \<and> query sample_engine 2 ''alpha'' [''content'']
      (Present [to_document question, to_document comment, to_document edited_question])
      [(''limit'', KInt 1)] = Inl TypeError"
proof -
  let ?st = "Present [to_document question, to_document comment, to_document edited_question]"
  let ?ix = "[to_document question, to_document comment, to_document edited_question]"
  have run: "query sample_engine 2 ''alpha'' [''content''] ?st []
     = Inr \<lparr>hits = [0, 1], res_fragmenter = \<lparr>maxchars = 300, surround = 50\<rparr>\<rparr>"
    by (simp add: query_def open_index_def open_dir_def sample_engine_def)
  have honours:
    "\<forall>ix pq l kw r. search sample_engine ix pq l kw = Inr r \<longrightarrow> length (hits r) \<le> l"
    by (auto simp: sample_engine_def)
  have opens: "open_index ?st = Some ?ix" by (simp add: open_index_def open_dir_def)
  have parses: "parse sample_engine ?ix [''content''] ''alpha'' = Inr ''alpha''"
    by (simp add: sample_engine_def)
  have given: "''limit'' \<in> set (map fst [(''limit'', KInt 1)])" by simp
  from query_limit_configured[of ?st ?ix sample_engine "[''content'']" "''alpha''" "''alpha''"
      "[(''limit'', KInt 1)]" 2] opens parses given
  have refused: "query sample_engine 2 ''alpha'' [''content''] ?st [(''limit'', KInt 1)]
      = Inl TypeError" by blast
  from query_limit_configured[of ?st ?ix sample_engine "[''content'']" "''alpha''" "''alpha''"
      "[]" 2 "\<lparr>hits = [0, 1], res_fragmenter = \<lparr>maxchars = 300, surround = 50\<rparr>\<rparr>"] run honours
  have "length (hits \<lparr>hits = [0, 1], res_fragmenter = \<lparr>maxchars = 300, surround = 50\<rparr>\<rparr>) \<le> (2::nat)"
    by blast
  with run refused show ?thesis by blast
qed




subsection \<open>Deleting before reindexing\<close>

lemma nth_survives:
  "k < length ds \<Longrightarrow> n + k \<notin> set del \<Longrightarrow> ds ! k \<in> set (surviving n del ds)"
proof (induction ds arbitrary: n k)
  case Nil
  then show ?case by simp
next
  case (Cons d ds)
  show ?case
  proof (cases k)
    case 0
    with Cons.prems show ?thesis by simp
  next
    case (Suc j)
    with Cons.prems have "j < length ds" and "Suc n + j \<notin> set del" by simp_all
    then have "ds ! j \<in> set (surviving (Suc n) del ds)" by (rule Cons.IH)
    with Suc show ?thesis by simp
  qed
qed

lemmas sample_defs =
  index_posts_def exists_in_def open_dir_def open_index_def create_in_def write_batch_def
  exclude_deleted_def commit_def new_writer_def add_index_def add_document_def numeric_ok_def
  delete_existing_def delete_document_def sample_search_def exact_hits_def to_document_def
  docs_with_uid_def stored_with_uid_def indexed_posts_def storable_def
  question_def comment_def edited_question_def deleted_question_def

text \<open>
  Claim C9. One call of \<^verbatim>\<open>delete_existing\<close> marks at most one document as deleted. When
  the search has hits, two or more in particular, the call marks the first hit and nothing
  else: every other document of the index, the documents of the other hits among them, is
  still in the index after the commit, and exactly the document at the number of the first
  hit is gone.
\<close>

theorem delete_existing_first_hit_only:
  "length (deleted (delete_existing srch ix w u)) \<le> Suc (length (deleted w))
   \<and> (srch ix u = h # rest \<longrightarrow>
        delete_existing srch ix w u = w\<lparr>deleted := deleted w @ [h]\<rparr>
        \<and> deleted (delete_existing srch ix (new_writer ix) u) = [h]
        \<and> (\<forall>k<length ix. k \<noteq> h \<longrightarrow>
              ix ! k \<in> set (commit (delete_existing srch ix (new_writer ix) u)))
        \<and> (h < length ix \<longrightarrow>
              mset ix
                = add_mset (ix ! h) (mset (commit (delete_existing srch ix (new_writer ix) u)))))"
proof (intro conjI impI allI)
  show "length (deleted (delete_existing srch ix w u)) \<le> Suc (length (deleted w))"
    by (simp add: delete_existing_eq)
next
  assume hits: "srch ix u = h # rest"
  then show "delete_existing srch ix w u = w\<lparr>deleted := deleted w @ [h]\<rparr>"
    by (simp add: delete_existing_eq)
next
  assume hits: "srch ix u = h # rest"
  then show "deleted (delete_existing srch ix (new_writer ix) u) = [h]"
    by (simp add: delete_existing_eq new_writer_def)
next
  fix k
  assume hits: "srch ix u = h # rest" and k: "k < length ix" "k \<noteq> h"
  from hits have cm: "commit (delete_existing srch ix (new_writer ix) u) = surviving 0 [h] ix"
    by (simp add: delete_existing_eq commit_def new_writer_def)
  from k have "ix ! k \<in> set (surviving 0 [h] ix)"
    by (intro nth_survives) simp_all
  then show "ix ! k \<in> set (commit (delete_existing srch ix (new_writer ix) u))"
    by (simp add: cm)
next
  assume hits: "srch ix u = h # rest" and hlt: "h < length ix"
  from hits have "commit (delete_existing srch ix (new_writer ix) u) = surviving 0 [h] ix"
    by (simp add: delete_existing_eq commit_def new_writer_def)
  with hlt surviving_single[of 0 h ix]
  have cm: "commit (delete_existing srch ix (new_writer ix) u) = take h ix @ drop (Suc h) ix"
    by simp
  have "ix = take h ix @ ix ! h # drop (Suc h) ix"
    using hlt by (rule id_take_nth_drop)
  then have "mset ix = mset (take h ix @ ix ! h # drop (Suc h) ix)" by simp
  then show "mset ix
      = add_mset (ix ! h) (mset (commit (delete_existing srch ix (new_writer ix) u)))"
    by (simp add: cm)
qed

text \<open>Two documents of uid \<^verbatim>\<open>p1\<close> at numbers 0 and 2: the one at 0 goes, the one at 2 stays.\<close>

theorem delete_existing_first_hit_only_witness:
  "sample_search [to_document question, to_document comment, to_document edited_question] ''p1''
      = [0, 2]
   \<and> deleted (delete_existing sample_search
        [to_document question, to_document comment, to_document edited_question]
        (new_writer [to_document question, to_document comment, to_document edited_question]) ''p1'')
      = [0]
   \<and> commit (delete_existing sample_search
        [to_document question, to_document comment, to_document edited_question]
        (new_writer [to_document question, to_document comment, to_document edited_question]) ''p1'')
      = [to_document comment, to_document edited_question]"
proof -
  let ?ix = "[to_document question, to_document comment, to_document edited_question]"
  have s: "sample_search ?ix ''p1'' = 0 # [2]"
    by (simp add: sample_defs)
  have c: "commit (delete_existing sample_search ?ix (new_writer ?ix) ''p1'')
      = [to_document comment, to_document edited_question]"
    by (simp add: sample_defs)
  from delete_existing_first_hit_only[of sample_search ?ix "new_writer ?ix" "''p1''" 0 "[2]"] s
  have "deleted (delete_existing sample_search ?ix (new_writer ?ix) ''p1'') = [0]"
    by blast
  with s c show ?thesis by simp
qed

text \<open>
  Claim C10, as stated, fails: of two posts of one uid in an update batch, one that is
  deleted (or has no root) never reaches \<^verbatim>\<open>add_index\<close>, and only the other's document is
  committed.
\<close>

theorem same_uid_one_added_counterexample:
  "uid question = uid deleted_question
   \<and> index_posts sample_search [question, deleted_question] False (Present [])
       = Inr (Present [to_document question])
   \<and> docs_with_uid (uid question) [to_document question] = [to_document question]"
  by (simp add: sample_defs)

text \<open>
  Claim C10, amended. The lookup of \<^verbatim>\<open>delete_existing\<close> reads the committed index only:
  what it deletes does not depend on the documents the writer has pending. So when an
  update batch has two posts of one uid that both reach \<^verbatim>\<open>add_index\<close> (not deleted, with
  a root), and the numbers of every indexed post of the batch fit the numeric fields, the
  run commits and the documents of both posts are in the index after the commit.
\<close>

theorem same_uid_twice_both_added:
  assumes batch: "posts = xs @ p # ys @ q # zs"
    and same: "uid p = uid q"
    and p: "status p \<noteq> DELETED" "root p \<noteq> None"
    and q: "status q \<noteq> DELETED" "root q \<noteq> None"
    and fit: "\<forall>r\<in>set (indexed_posts posts). storable r"
  shows "deleted (delete_existing srch ix (w\<lparr>added := pending\<rparr>) (uid q))
       = deleted w @ take 1 (srch ix (uid q))
     \<and> (\<exists>ix'. index_posts srch posts False (Present ix) = Inr (Present ix')
          \<and> {#to_document p, to_document q#} \<subseteq># mset ix'
          \<and> 2 \<le> length (docs_with_uid (uid p) ix'))"
proof -
  let ?del = "concat (map (\<lambda>p. take 1 (srch ix (uid p))) (indexed_posts posts))"
  let ?pre = "surviving 0 ?del ix @ map to_document (indexed_posts xs)"
  let ?mid = "map to_document (indexed_posts ys)"
  let ?suf = "map to_document (indexed_posts zs)"
  let ?ix' = "?pre @ to_document p # ?mid @ to_document q # ?suf"
  have lookup: "deleted (delete_existing srch ix (w\<lparr>added := pending\<rparr>) (uid q))
       = deleted w @ take 1 (srch ix (uid q))"
    by (simp add: delete_existing_eq)
  have qs: "indexed_posts posts
      = indexed_posts xs @ p # indexed_posts ys @ q # indexed_posts zs"
    using batch p q by (simp add: indexed_posts_alt)
  have "index_posts srch posts False (Present ix)
      = Inr (Present (surviving 0 ?del ix @ map to_document (indexed_posts posts)))"
    using write_batch_update[OF fit] by (simp add: index_posts_cases)
  then have run: "index_posts srch posts False (Present ix) = Inr (Present ?ix')"
    by (simp add: qs)
  have both: "{#to_document p, to_document q#} \<subseteq># mset ?ix'"
    by simp
  have "d_uid (to_document p) = uid p" "d_uid (to_document q) = uid p"
    using same by (simp_all add: to_document_def)
  then have two: "2 \<le> length (docs_with_uid (uid p) ?ix')"
    by (simp add: docs_with_uid_def)
  from lookup run both two show ?thesis by blast
qed

text \<open>
  The committed document of \<^verbatim>\<open>p1\<close> is replaced by two new ones, one for each occurrence of
  the post in the batch.
\<close>

theorem same_uid_twice_both_added_witness:
  "status edited_question \<noteq> DELETED \<and> root edited_question \<noteq> None
   \<and> storable edited_question \<and> storable comment
   \<and> index_posts sample_search [edited_question, comment, edited_question] False
        (Present [to_document question])
       = Inr (Present [to_document edited_question, to_document comment,
                       to_document edited_question])
   \<and> docs_with_uid (uid edited_question)
        [to_document edited_question, to_document comment, to_document edited_question]
       = [to_document edited_question, to_document edited_question]"
proof -
  let ?posts = "[edited_question, comment, edited_question]"
  have b: "?posts = [] @ edited_question # [comment] @ edited_question # []"
    by simp
  have h: "status edited_question \<noteq> DELETED" "root edited_question \<noteq> None"
    by (simp_all add: edited_question_def question_def)
  have st: "storable edited_question" "storable comment"
    by (simp_all add: sample_defs)
  have qs: "indexed_posts ?posts = ?posts"
    by (simp add: indexed_posts_def exclude_deleted_def edited_question_def comment_def
        question_def)
  have fit: "\<forall>r\<in>set (indexed_posts ?posts). storable r"
    unfolding qs using st by simp
  have run: "index_posts sample_search ?posts False (Present [to_document question])
       = Inr (Present [to_document edited_question, to_document comment,
                       to_document edited_question])"
    by (simp add: sample_defs)
  have d: "docs_with_uid (uid edited_question)
        [to_document edited_question, to_document comment, to_document edited_question]
       = [to_document edited_question, to_document edited_question]"
    by (simp add: sample_defs)
  from same_uid_twice_both_added[OF b refl h h fit, of sample_search "[to_document question]"]
    h st run d show ?thesis by simp
qed

text \<open>
  Claim C1, as stated, fails: an update run does not always leave at most one document per
  uid. A batch that holds a post twice adds its document twice, and of two committed
  documents of one uid the run deletes only the first.
\<close>

theorem update_two_documents_counterexample:
  "index_posts sample_search [question, question] False (Present [to_document comment])
     = Inr (Present [to_document comment, to_document question, to_document question])
   \<and> docs_with_uid (uid question) [to_document comment, to_document question, to_document question]
     = [to_document question, to_document question]
   \<and> index_posts sample_search [edited_question] False
        (Present [to_document question, to_document question])
     = Inr (Present [to_document question, to_document edited_question])
   \<and> docs_with_uid (uid edited_question) [to_document question, to_document edited_question]
     = [to_document question, to_document edited_question]"
  by (simp add: sample_defs)

text \<open>
  Claim C1, amended. Take an update run in which the lookup finds, for the uid of every
  post of the batch that is not deleted and has a root, exactly the committed documents
  whose uid field equals it (the uid is a plain word for the query parser), and the rank
  and the last-edit time of every such post fit the 32-bit numeric fields. Let the
  committed index hold at most one document per uid, and those posts have different uids.
  Then the writer ends the loop with, for every such post, the deletion of the first hit
  of its lookup, if there is one, and the addition of its document; the run commits; and
  the index after the commit holds the old documents of the other uids and the new
  documents: at most one document per uid, and for every indexed post exactly its new
  document.
\<close>

theorem update_one_document_per_uid:
  assumes ix: "distinct (map d_uid ix)"
    and batch: "distinct (map uid (indexed_posts posts))"
    and exact: "\<forall>p\<in>set (indexed_posts posts). srch ix (uid p) = exact_hits ix (uid p)"
    and fit: "\<forall>p\<in>set (indexed_posts posts). storable p"
  shows "index_loop srch True ix (new_writer ix) (exclude_deleted posts)
       = Inr \<lparr>segments = ix,
              deleted = concat (map (\<lambda>p. take 1 (srch ix (uid p))) (indexed_posts posts)),
              added = map to_document (indexed_posts posts)\<rparr>
     \<and> (\<exists>ix'. index_posts srch posts False (Present ix) = Inr (Present ix')
          \<and> set ix' = {d \<in> set ix. d_uid d \<notin> uid ` set (indexed_posts posts)}
                       \<union> to_document ` set (indexed_posts posts)
          \<and> distinct (map d_uid ix')
          \<and> (\<forall>p\<in>set (indexed_posts posts). docs_with_uid (uid p) ix' = [to_document p]))"
proof -
  let ?qs = "indexed_posts posts"
  let ?ix' = "[d \<leftarrow> ix. d_uid d \<notin> uid ` set ?qs] @ map to_document ?qs"
  from fit have "\<forall>p\<in>set (exclude_deleted posts). root p \<noteq> None \<longrightarrow> storable p"
    by (simp add: indexed_posts_def)
  then have loop: "index_loop srch True ix (new_writer ix) (exclude_deleted posts)
       = Inr \<lparr>segments = ix,
              deleted = concat (map (\<lambda>p. take 1 (srch ix (uid p))) ?qs),
              added = map to_document ?qs\<rparr>"
    by (simp add: index_loop_update new_writer_def indexed_posts_def)
  have "\<forall>p\<in>set ?qs. length (docs_with_uid (uid p) ix) \<le> 1"
    using distinct_uid_le1[OF ix] by blast
  then have surv: "surviving 0 (concat (map (\<lambda>p. take 1 (srch ix (uid p))) ?qs)) ix
      = [d \<leftarrow> ix. d_uid d \<notin> uid ` set ?qs]"
    using exact by (rule surviving_update)
  have "index_posts srch posts False (Present ix)
      = Inr (Present (surviving 0 (concat (map (\<lambda>p. take 1 (srch ix (uid p))) ?qs)) ix
                      @ map to_document ?qs))"
    using write_batch_update[OF fit] by (simp add: index_posts_cases)
  then have run: "index_posts srch posts False (Present ix) = Inr (Present ?ix')"
    by (simp only: surv)
  have content: "set ?ix' = {d \<in> set ix. d_uid d \<notin> uid ` set ?qs} \<union> to_document ` set ?qs"
    by auto
  have comp: "d_uid \<circ> to_document = uid"
    by (rule ext) (simp add: to_document_def)
  have uids: "map d_uid ?ix' = map d_uid [d \<leftarrow> ix. d_uid d \<notin> uid ` set ?qs] @ map uid ?qs"
    by (simp add: comp)
  have old: "distinct (map d_uid [d \<leftarrow> ix. d_uid d \<notin> uid ` set ?qs])"
    using ix by (simp add: distinct_map_filter)
  have apart: "set (map d_uid [d \<leftarrow> ix. d_uid d \<notin> uid ` set ?qs]) \<inter> set (map uid ?qs) = {}"
    by auto
  have dist: "distinct (map d_uid ?ix')"
    unfolding uids using old batch apart by (simp only: distinct_append simp_thms)
  have one: "docs_with_uid (uid p) ?ix' = [to_document p]" if p: "p \<in> set ?qs" for p
  proof -
    have "docs_with_uid (uid p) [d \<leftarrow> ix. d_uid d \<notin> uid ` set ?qs] = []"
      using p by (auto simp: docs_with_uid_def filter_empty_conv)
    moreover have "[q \<leftarrow> ?qs. uid q = uid p] = [p]"
      using batch p by (rule filter_key_distinct)
    ultimately show ?thesis
      using docs_with_uid_new[of "uid p" ?qs] by (simp add: docs_with_uid_def)
  qed
  from loop run content dist one show ?thesis by blast
qed

text \<open>
  The post \<^verbatim>\<open>p1\<close> is indexed with the content "alpha" and reindexed with "beta": one
  document of \<^verbatim>\<open>p1\<close> is left, the new one.
\<close>

theorem update_one_document_per_uid_witness:
  "distinct (map d_uid [to_document question, to_document comment])
   \<and> distinct (map uid (indexed_posts [edited_question]))
   \<and> sample_search [to_document question, to_document comment] (uid edited_question)
       = exact_hits [to_document question, to_document comment] (uid edited_question)
   \<and> storable edited_question
   \<and> index_posts sample_search [edited_question] False
        (Present [to_document question, to_document comment])
       = Inr (Present [to_document comment, to_document edited_question])
   \<and> docs_with_uid ''p1'' [to_document comment, to_document edited_question]
       = [to_document edited_question]
   \<and> d_content (to_document edited_question) = ''beta''"
proof -
  let ?ix = "[to_document question, to_document comment]"
  have h1: "distinct (map d_uid ?ix)"
    by (simp add: to_document_def question_def comment_def)
  have qs: "indexed_posts [edited_question] = [edited_question]"
    by (simp add: indexed_posts_alt edited_question_def question_def)
  have h2: "distinct (map uid (indexed_posts [edited_question]))"
    by (simp add: qs)
  have s: "sample_search ?ix (uid edited_question) = exact_hits ?ix (uid edited_question)"
    by (simp add: sample_search_def edited_question_def question_def)
  have st: "storable edited_question"
    by (simp add: storable_def numeric_ok_def edited_question_def question_def)
  have h3: "\<forall>p\<in>set (indexed_posts [edited_question]).
      sample_search ?ix (uid p) = exact_hits ?ix (uid p)"
    unfolding qs using s by simp
  have h4: "\<forall>p\<in>set (indexed_posts [edited_question]). storable p"
    unfolding qs using st by simp
  have run: "index_posts sample_search [edited_question] False (Present ?ix)
       = Inr (Present [to_document comment, to_document edited_question])"
    by (simp add: sample_defs)
  have d: "docs_with_uid ''p1'' [to_document comment, to_document edited_question]
       = [to_document edited_question]"
    by (simp add: sample_defs)
  have c: "d_content (to_document edited_question) = ''beta''"
    by (simp add: to_document_def edited_question_def)
  from update_one_document_per_uid[where srch = sample_search, OF h1 h2 h3 h4] run
  have "distinct (map d_uid [to_document comment, to_document edited_question])" by auto
  with h1 h2 s st run d c show ?thesis by blast
qed




text \<open>
  Claim C5, as stated, fails: a post that was indexed before it was deleted stays in the
  index. The run filters the deleted post out before the loop, so neither
  \<^verbatim>\<open>delete_existing\<close> nor \<^verbatim>\<open>add_index\<close> is called for it, and its document is committed
  again as it was.
\<close>

theorem deleted_post_stays_counterexample:
  "index_posts sample_search [question] False Missing = Inr (Present [to_document question])
   \<and> status deleted_question = DELETED \<and> uid deleted_question = uid question
   \<and> index_posts sample_search [deleted_question] False (Present [to_document question])
       = Inr (Present [to_document question])
   \<and> docs_with_uid (uid deleted_question) [to_document question] = [to_document question]"
  by (simp add: sample_defs)

text \<open>
  Claim C5, amended. A deleted post is filtered out before the writer loop, and no run adds
  a document for it: after any sequence of runs that return, in each of which every post
  of uid \<open>u\<close> is deleted, the documents of uid \<open>u\<close> in the committed index are among those
  that were there before the first run. An index without a document of the post's uid is
  still without one, however many runs there were.
\<close>

theorem deleted_post_never_added:
  assumes gone: "\<forall>(ps, cn)\<in>set runs. \<forall>q\<in>set ps. uid q = u \<longrightarrow> status q = DELETED"
    and run: "index_runs srch runs st = Inr st'"
  shows "(\<forall>(ps, cn)\<in>set runs. \<forall>q\<in>set ps. uid q = u \<longrightarrow> q \<notin> set (exclude_deleted ps))
     \<and> set (stored_with_uid u st') \<subseteq> set (stored_with_uid u st)
     \<and> (stored_with_uid u st = [] \<longrightarrow> stored_with_uid u st' = [])"
proof -
  have filtered: "\<forall>(ps, cn)\<in>set runs. \<forall>q\<in>set ps. uid q = u \<longrightarrow> q \<notin> set (exclude_deleted ps)"
    using gone by (auto simp: exclude_deleted_def)
  have sub: "set (stored_with_uid u st') \<subseteq> set (stored_with_uid u st)"
    using gone run
  proof (induction runs arbitrary: st)
    case Nil
    then show ?case by simp
  next
    case (Cons r runs)
    obtain ps cn where r: "r = (ps, cn)" by (cases r)
    from Cons.prems(1) r have here: "\<forall>q\<in>set ps. uid q = u \<longrightarrow> status q = DELETED"
      and later: "\<forall>(ps, cn)\<in>set runs. \<forall>q\<in>set ps. uid q = u \<longrightarrow> status q = DELETED"
      by auto
    from Cons.prems(2) r obtain st1 where first: "index_posts srch ps cn st = Inr st1"
      and rest: "index_runs srch runs st1 = Inr st'"
      by (auto split: sum.splits)
    from here first have "set (stored_with_uid u st1) \<subseteq> set (stored_with_uid u st)"
      by (rule index_posts_adds_no_deleted)
    moreover from later rest have "set (stored_with_uid u st') \<subseteq> set (stored_with_uid u st1)"
      by (rule Cons.IH)
    ultimately show ?case by blast
  qed
  then have "stored_with_uid u st = [] \<longrightarrow> stored_with_uid u st' = []" by auto
  with filtered sub show ?thesis by blast
qed

text \<open>
  Three runs, an update, a rebuild and an update again, with the deleted question in every
  batch: no document of \<^verbatim>\<open>p1\<close> is ever committed.
\<close>

theorem deleted_post_never_added_witness:
  "status deleted_question = DELETED \<and> uid deleted_question = ''p1'' \<and> uid comment = ''p2''
   \<and> index_runs sample_search
        [([deleted_question, comment], False), ([deleted_question], True),
         ([comment, deleted_question], False)] Missing
       = Inr (Present [to_document comment])
   \<and> stored_with_uid ''p1'' (Present [to_document comment]) = []"
proof -
  let ?runs = "[([deleted_question, comment], False), ([deleted_question], True),
                ([comment, deleted_question], False)]"
  have facts: "status deleted_question = DELETED" "uid deleted_question = ''p1''"
      "uid comment = ''p2''"
    by (simp_all add: deleted_question_def question_def comment_def)
  have gone: "\<forall>(ps, cn)\<in>set ?runs. \<forall>q\<in>set ps. uid q = ''p1'' \<longrightarrow> status q = DELETED"
    using facts by simp
  have run: "index_runs sample_search ?runs Missing = Inr (Present [to_document comment])"
    by (simp add: sample_defs)
  have start: "stored_with_uid ''p1'' Missing = []" by (simp add: stored_with_uid_def)
  from deleted_post_never_added[OF gone run] start
  have "stored_with_uid ''p1'' (Present [to_document comment]) = []" by blast
  with facts run show ?thesis by blast
qed

end
